theory Spec2Isabelle
  imports Complex_Main "HOL-Library.Multiset" "HOL-Library.Log_Nat"
begin

section \<open>Python primitives used by \<^verbatim>\<open>para_defs.py\<close> and \<^verbatim>\<open>rixs.py\<close>\<close>

text \<open>
  Python integers are unbounded, so they are HOL integers. The exceptions the modelled
  code can raise are values of \<open>py_error\<close>; a function that can raise returns
  \<open>py_error + 'a\<close> with \<open>Inl\<close> for the exception. A method that raises returns the
  exception alone: the object it had begun to update is not observed afterwards.
\<close>

datatype py_error = ZeroDivisionError | AttributeError | OverflowError

text \<open>
  \<^verbatim>\<open>int(a / b)\<close> in Python 3. The quotient \<^verbatim>\<open>a / b\<close> of two integers is the double
  nearest to the exact quotient: a significand \<open>m\<close> of 53 bits, \<open>2^52 \<le> m \<le> 2^53\<close>, times a
  power of two \<open>2^e\<close>, ties going to the even significand. A rounded quotient of
  \<open>2^1024\<close> or more raises \<^verbatim>\<open>OverflowError\<close>, division by zero raises
  \<^verbatim>\<open>ZeroDivisionError\<close>, and \<^verbatim>\<open>int\<close> truncates the double towards zero. Quotients below
  the smallest normal double are rounded on a coarser grid, which truncation does not
  see: they all give 0.
\<close>

definition round_half_even :: "int \<Rightarrow> int \<Rightarrow> int" where
  "round_half_even n d =
     (let q = n div d; r = n mod d in
      if d < 2 * r \<or> (2 * r = d \<and> odd q) then q + 1 else q)"

text \<open>
  For positive \<open>a\<close> and \<open>b\<close>: the exponent \<open>e\<close> with \<open>2^52 \<le> a / (b 2^e) < 2^53\<close> is found from
  the bit lengths, the significand is \<open>a / (b 2^e)\<close> rounded, and the result is the integer
  part of \<open>m 2^e\<close>.
\<close>

definition float_quotient :: "int \<Rightarrow> int \<Rightarrow> py_error + int" where
  "float_quotient a b =
     (let e0 = bitlen a - bitlen b - 53;
          e = (if 2 ^ 53 * (b * 2 ^ nat e0) \<le> a * 2 ^ nat (- e0) then e0 + 1 else e0);
          m = round_half_even (a * 2 ^ nat (- e)) (b * 2 ^ nat e)
      in if 0 \<le> e then
           (if 2 ^ 1024 \<le> m * 2 ^ nat e then Inl OverflowError else Inr (m * 2 ^ nat e))
         else Inr (m div 2 ^ nat (- e)))"

definition int_true_div :: "int \<Rightarrow> int \<Rightarrow> py_error + int" where
  "int_true_div a b =
     (if b = 0 then Inl ZeroDivisionError
      else if a = 0 then Inr 0
      else (case float_quotient \<bar>a\<bar> \<bar>b\<bar> of
              Inl e \<Rightarrow> Inl e
            | Inr q \<Rightarrow> Inr (sgn a * sgn b * q)))"

text \<open>
  In \<^verbatim>\<open>set_pool\<close> the operands of \<^verbatim>\<open>int(a / b)\<close> are the size of the communicator and
  ranks in it, which the message passing runtime holds in C integers below \<open>2^31\<close>. There
  the double quotient loses nothing (\<open>int_true_div\<close> is the truncated exact quotient for
  every numerator below \<open>2^53\<close>, lemma \<open>int_div_is_int_true_div\<close> below), and the division
  is taken as the truncated exact quotient, which on operands that are not negative is
  also the floor that Python 2 computes.
\<close>

definition int_div :: "int \<Rightarrow> int \<Rightarrow> py_error + int" where
  "int_div a b =
     (if b = 0 then Inl ZeroDivisionError
      else Inr (sgn a * sgn b * (\<bar>a\<bar> div \<bar>b\<bar>)))"

text \<open>\<^verbatim>\<open>a % b\<close> on integers: the result has the sign of the divisor, as \<open>mod\<close> on \<open>int\<close>.\<close>

definition py_mod :: "int \<Rightarrow> int \<Rightarrow> py_error + int" where
  "py_mod a b = (if b = 0 then Inl ZeroDivisionError else Inr (a mod b))"

text \<open>\<^verbatim>\<open>range(a, b)\<close> is the list \<open>[a..b - 1]\<close>, and \<^verbatim>\<open>range(b)\<close> is \<open>[0..b - 1]\<close>.\<close>

definition range2 :: "int \<Rightarrow> int \<Rightarrow> int list" where
  "range2 a b = [a..b - 1]"

text \<open>\<^verbatim>\<open>range(a, b, step)\<close> for a positive step.\<close>

function range3 :: "int \<Rightarrow> int \<Rightarrow> int \<Rightarrow> int list" where
  "range3 a b step = (if a < b \<and> 0 < step then a # range3 (a + step) b step else [])"
  by pat_completeness auto
termination
  by (relation "measure (\<lambda>(a, b, step). nat (b - a))") auto

declare range3.simps [simp del]

section \<open>Communicators\<close>

text \<open>
  A communicator is the ordered list of the world ranks of its members: the member at
  position \<open>j\<close> has rank \<open>j\<close> in it. \<open>PyNone\<close> is Python's \<^verbatim>\<open>None\<close> (no message passing
  runtime) and \<open>COMM_NULL\<close> is what \<^verbatim>\<open>Create_group\<close> hands to a process outside the
  group.
\<close>

datatype communicator = PyNone | COMM_NULL | Comm "int list"

text \<open>
  \<^verbatim>\<open>comm.Split(color, key)\<close> is collective. Every member calls it with its own colour and
  key; the caller receives the communicator of the members with its colour, ordered by
  key, ties by the old rank (a stable sort). The colours and keys of the other members
  are given as functions of their rank. A member whose colour is \<open>None\<close> did not get
  as far as the call.
\<close>

definition Split :: "int list \<Rightarrow> (int \<Rightarrow> int option) \<Rightarrow> (int \<Rightarrow> int) \<Rightarrow> int \<Rightarrow> communicator" where
  "Split world color key me = Comm (sort_key key (filter (\<lambda>r. color r = color me) world))"

fun Get_size :: "communicator \<Rightarrow> int" where
  "Get_size (Comm g) = int (length g)"
| "Get_size PyNone = 0"
| "Get_size COMM_NULL = 0"

fun Get_rank :: "communicator \<Rightarrow> int \<Rightarrow> int" where
  "Get_rank (Comm g) me = int (length (takeWhile (\<lambda>r. r \<noteq> me) g))"
| "Get_rank PyNone me = 0"
| "Get_rank COMM_NULL me = 0"

section \<open>\<^verbatim>\<open>para_class\<close> and \<^verbatim>\<open>pool_class\<close>\<close>

text \<open>
  \<^verbatim>\<open>para_class.__init__\<close>: with a runtime, the world communicator of \<open>P\<close> processes
  and the rank \<open>r\<close> of this process; without one, a single process. The runtime is
  given by what \<^verbatim>\<open>Get_size\<close> and \<^verbatim>\<open>Get_rank\<close> of \<^verbatim>\<open>COMM_WORLD\<close> return.
\<close>

record para_class =
  para_comm :: communicator
  para_size :: int
  para_rank :: int

definition para_init :: "(int \<times> int) option \<Rightarrow> para_class" where
  "para_init MPI =
     (case MPI of
        Some (P, r) \<Rightarrow> \<lparr>para_comm = Comm (range2 0 P), para_size = P, para_rank = r\<rparr>
      | None \<Rightarrow> \<lparr>para_comm = PyNone, para_size = 1, para_rank = 0\<rparr>)"

text \<open>
  The attributes of a \<^verbatim>\<open>pool_class\<close> object. \<^verbatim>\<open>__init__\<close> sets \<^verbatim>\<open>para\<close>,
  \<^verbatim>\<open>pool_list\<close>, \<^verbatim>\<open>up\<close> and \<^verbatim>\<open>msg\<close>; every other attribute does not exist until a
  method assigns it, which is the value \<open>None\<close> of an option here. The fields carry
  the prefix \<open>pool_\<close> where the attribute's name is a variable or a constant of HOL
  (\<^verbatim>\<open>n\<close>, \<^verbatim>\<open>i\<close>, \<^verbatim>\<open>size\<close>, \<^verbatim>\<open>rank\<close>, ...).
\<close>

record pool_class =
  pool_para :: para_class
  pool_list :: "int list list"
  pool_up :: bool
  pool_msg :: string
  pool_npp :: "int option"
  pool_n :: "int option"
  pool_i :: "int option"
  pool_comm :: "communicator option"
  pool_size :: "int option"
  pool_rank :: "int option"
  pool_roots :: "int list option"
  pool_rootcomm :: "communicator option"
  pool_nspin :: "int option"
  pool_nk :: "int option"
  pool_nk_use :: "int option"
  sk_list :: "(int \<times> int) list option"
  sk_offset :: "int list option"
  nsk :: "int option"

definition pool_init :: "para_class \<Rightarrow> pool_class" where
  "pool_init para =
     \<lparr>pool_para = para, pool_list = [], pool_up = False, pool_msg = [],
      pool_npp = None, pool_n = None, pool_i = None, pool_comm = None,
      pool_size = None, pool_rank = None, pool_roots = None, pool_rootcomm = None,
      pool_nspin = None, pool_nk = None, pool_nk_use = None,
      sk_list = None, sk_offset = None, nsk = None\<rparr>"

section \<open>\<^verbatim>\<open>pool_class.set_pool\<close>\<close>

text \<open>
  Lines 54 to 68 of \<^verbatim>\<open>set_pool\<close>: the clamped pool size \<^verbatim>\<open>self.npp\<close>, the number
  of pools \<^verbatim>\<open>self.n\<close> and the pool index \<^verbatim>\<open>self.i\<close> of the process of rank \<open>prank\<close>
  among \<open>psize\<close> processes. The two diagnostics printed when the pool size is clamped
  go to the console and are not part of the state.
\<close>

definition pool_index :: "int \<Rightarrow> int \<Rightarrow> int \<Rightarrow> bool \<Rightarrow> py_error + (int \<times> int \<times> int)" where
  "pool_index psize prank nproc_per_pool remainder_mode =
     (let npp = (if psize < nproc_per_pool then psize else nproc_per_pool) in
      case int_div psize npp of
        Inl e \<Rightarrow> Inl e
      | Inr n \<Rightarrow>
          if remainder_mode then
            (case py_mod prank n of
               Inl e \<Rightarrow> Inl e
             | Inr i \<Rightarrow> Inr (npp, n, i))
          else
            (case py_mod psize npp of
               Inl e \<Rightarrow> Inl e
             | Inr res \<Rightarrow>
                 if prank < res * (npp + 1) then
                   (case int_div prank (npp + 1) of
                      Inl e \<Rightarrow> Inl e
                    | Inr i \<Rightarrow> Inr (npp, n, i))
                 else
                   (case int_div (prank - res * (npp + 1)) npp of
                      Inl e \<Rightarrow> Inl e
                    | Inr q \<Rightarrow> Inr (npp, n, q + res))))"

text \<open>
  Every process runs \<^verbatim>\<open>set_pool\<close> with the same arguments, so the colour that the
  process of rank \<open>r\<close> passes to \<^verbatim>\<open>Split\<close> is the value of the same code at \<open>r\<close>:
  \<^verbatim>\<open>para.rank % self.n\<close> in remainder mode (line 74), \<^verbatim>\<open>self.i\<close> otherwise (line 77).
  The test \<^verbatim>\<open>if comm:\<close> of line 69 holds for a communicator and fails for \<^verbatim>\<open>None\<close>
  and for the null communicator.
\<close>

definition split_color :: "int \<Rightarrow> int \<Rightarrow> bool \<Rightarrow> int \<Rightarrow> int option" where
  "split_color psize nproc_per_pool remainder_mode r =
     (case pool_index psize r nproc_per_pool remainder_mode of
        Inl e \<Rightarrow> None
      | Inr (npp, n, i) \<Rightarrow>
          if remainder_mode then
            (case py_mod r n of Inl e \<Rightarrow> None | Inr c \<Rightarrow> Some c)
          else Some i)"

text \<open>
  Lines 82 to 84: the gathered and broadcast vector of intra-pool ranks, indexed by the
  rank in \<^verbatim>\<open>comm\<close>, and the positions where it is zero.
\<close>

definition gather_ranks :: "int list \<Rightarrow> (int \<Rightarrow> int option) \<Rightarrow> int list" where
  "gather_ranks world color = map (\<lambda>r. Get_rank (Split world color (\<lambda>k. k) r) r) world"

definition roots_of :: "int list \<Rightarrow> int list" where
  "roots_of ranks = map (\<lambda>(ir, r). int ir) (filter (\<lambda>(ir, r). r = 0) (enumerate 0 ranks))"

text \<open>
  Lines 85 and 86: \<^verbatim>\<open>Group.Incl\<close> selects the members at the positions \<^verbatim>\<open>roots\<close>, and
  \<^verbatim>\<open>Create_group\<close> gives their communicator to each of them and the null communicator to
  every other process.
\<close>

definition Create_group_Incl :: "int list \<Rightarrow> int list \<Rightarrow> int \<Rightarrow> communicator" where
  "Create_group_Incl world roots me =
     (let members = map (\<lambda>ir. world ! nat ir) roots in
      if me \<in> set members then Comm members else COMM_NULL)"

definition set_pool :: "pool_class \<Rightarrow> int \<Rightarrow> bool \<Rightarrow> py_error + pool_class" where
  "set_pool self nproc_per_pool remainder_mode =
     (let para = pool_para self; comm = para_comm para in
      if nproc_per_pool > 0 then
        (case pool_index (para_size para) (para_rank para) nproc_per_pool remainder_mode of
           Inl e \<Rightarrow> Inl e
         | Inr (npp, n, i) \<Rightarrow>
             (let self1 = self\<lparr>pool_npp := Some npp, pool_n := Some n, pool_i := Some i\<rparr> in
              case comm of
                Comm world \<Rightarrow>
                  (let color = split_color (para_size para) nproc_per_pool remainder_mode;
                       pcomm = Split world color (\<lambda>k. k) (para_rank para);
                       roots = roots_of (gather_ranks world color)
                   in Inr (self1\<lparr>pool_comm := Some pcomm,
                                  pool_size := Some (Get_size pcomm),
                                  pool_rank := Some (Get_rank pcomm (para_rank para)),
                                  pool_roots := Some roots,
                                  pool_rootcomm := Some (Create_group_Incl world roots (para_rank para)),
                                  pool_up := True\<rparr>))
              | _ \<Rightarrow>
                  Inr (self1\<lparr>pool_comm := Some PyNone,
                              pool_rank := Some 0,
                              pool_size := Some 1,
                              pool_rootcomm := Some PyNone,
                              pool_roots := Some [0],
                              pool_up := True\<rparr>)))
      else Inr self)"

text \<open>
  \<^verbatim>\<open>set_pool\<close> as the process of rank \<open>r\<close> among \<open>P\<close> runs it on its fresh pool
  object, and the value of an attribute of the object a call leaves (\<open>None\<close> when the
  call raised or the attribute does not exist).
\<close>

definition set_pool_at :: "int \<Rightarrow> int \<Rightarrow> int \<Rightarrow> bool \<Rightarrow> py_error + pool_class" where
  "set_pool_at P r nproc_per_pool remainder_mode =
     set_pool (pool_init (para_init (Some (P, r)))) nproc_per_pool remainder_mode"

definition attr :: "(pool_class \<Rightarrow> 'a option) \<Rightarrow> py_error + pool_class \<Rightarrow> 'a option" where
  "attr f res = (case res of Inl e \<Rightarrow> None | Inr self \<Rightarrow> f self)"

text \<open>The ranks whose \<^verbatim>\<open>self.i\<close> is \<open>j\<close>, in increasing order: the members of pool \<open>j\<close>.\<close>

definition pool_ranks :: "int \<Rightarrow> int \<Rightarrow> bool \<Rightarrow> int \<Rightarrow> int list" where
  "pool_ranks P nproc_per_pool remainder_mode j =
     filter (\<lambda>r. attr pool_i (set_pool_at P r nproc_per_pool remainder_mode) = Some j)
       (range2 0 P)"

section \<open>\<^verbatim>\<open>pool_class.set_sk_list_v1\<close> and \<^verbatim>\<open>pool_class.set_sk_list\<close>\<close>

text \<open>
  The two lists a work assignment builds, \<^verbatim>\<open>self.sk_list\<close> and \<^verbatim>\<open>self.sk_offset\<close>,
  start empty and are threaded through the loops as a pair; \<^verbatim>\<open>append\<close> adds at the end.
  The object receives them, and their length \<^verbatim>\<open>self.nsk\<close>, when the loops are done.
\<close>

type_synonym sk_acc = "(int \<times> int) list \<times> int list"

text \<open>
  The inner loop of \<^verbatim>\<open>set_sk_list_v1\<close> (lines 135 to 139) over the remaining values
  of \<^verbatim>\<open>k\<close>. The test \<^verbatim>\<open>offset % self.n == self.i\<close> reads \<^verbatim>\<open>self.n\<close>, divides, then
  reads \<^verbatim>\<open>self.i\<close>; an attribute that was never assigned raises.
\<close>

fun sk_v1_k_loop :: "pool_class \<Rightarrow> int \<Rightarrow> int \<Rightarrow> int list \<Rightarrow> sk_acc \<Rightarrow> py_error + sk_acc" where
  "sk_v1_k_loop self nk s [] acc = Inr acc"
| "sk_v1_k_loop self nk s (k # ks) (skl, sko) =
     (let offset = s * nk + k in
      case pool_n self of
        None \<Rightarrow> Inl AttributeError
      | Some n \<Rightarrow>
          (case py_mod offset n of
             Inl e \<Rightarrow> Inl e
           | Inr m \<Rightarrow>
               (case pool_i self of
                  None \<Rightarrow> Inl AttributeError
                | Some i \<Rightarrow>
                    sk_v1_k_loop self nk s ks
                      (if m = i then (skl @ [(s, k)], sko @ [offset]) else (skl, sko)))))"

text \<open>The outer loop (line 134) over the remaining values of \<^verbatim>\<open>s\<close>.\<close>

fun sk_v1_s_loop :: "pool_class \<Rightarrow> int \<Rightarrow> int \<Rightarrow> int list \<Rightarrow> sk_acc \<Rightarrow> py_error + sk_acc" where
  "sk_v1_s_loop self nk nk_use [] acc = Inr acc"
| "sk_v1_s_loop self nk nk_use (s # ss) acc =
     (case sk_v1_k_loop self nk s (range2 0 nk_use) acc of
        Inl e \<Rightarrow> Inl e
      | Inr acc' \<Rightarrow> sk_v1_s_loop self nk nk_use ss acc')"

definition set_sk_list_v1 :: "pool_class \<Rightarrow> int \<Rightarrow> int \<Rightarrow> int \<Rightarrow> py_error + pool_class" where
  "set_sk_list_v1 self nspin nk nk_use =
     (let self1 = self\<lparr>pool_nspin := Some nspin, pool_nk := Some nk,
                        pool_nk_use := Some nk_use,
                        sk_list := Some [], sk_offset := Some []\<rparr> in
      case sk_v1_s_loop self1 nk nk_use (range2 0 nspin) ([], []) of
        Inl e \<Rightarrow> Inl e
      | Inr (skl, sko) \<Rightarrow>
          Inr (self1\<lparr>sk_list := Some skl, sk_offset := Some sko,
                      nsk := Some (int (length skl))\<rparr>))"




text \<open>
  A pool object as \<^verbatim>\<open>set_pool\<close> leaves it for the work assignment: \<open>N\<close> pools, this one
  with index \<open>pid\<close>.
\<close>

definition pool_of :: "int \<Rightarrow> int \<Rightarrow> pool_class" where
  "pool_of N pid = (pool_init (para_init None))\<lparr>pool_n := Some N, pool_i := Some pid, pool_up := True\<rparr>"


section \<open>The brightest transition in \<^verbatim>\<open>rixs_f1\<close>\<close>

text \<open>
  Line 99: the indices of \<^verbatim>\<open>omega_in\<close> that the process of rank \<open>rank\<close> among \<open>csize\<close>
  handles.
\<close>

definition iw_local :: "int \<Rightarrow> int \<Rightarrow> int \<Rightarrow> int list" where
  "iw_local rank csize nener_in = range3 rank (nener_in + 1) csize"

text \<open>
  Lines 151 to 153. The matrices \<^verbatim>\<open>Mv1c1[iw]\<close> enter through their largest magnitude
  \<^verbatim>\<open>abs(Mv1c1[iw]).max()\<close>, a number that depends on the index of \<^verbatim>\<open>omega_in\<close> only and
  is given by \<open>amp\<close>. Taking a maximum rounds nothing, so the magnitudes are the real
  numbers the floats denote.
\<close>

fun max_loop :: "real list \<Rightarrow> real \<Rightarrow> real" where
  "max_loop [] m = m"
| "max_loop (x # xs) m = max_loop xs (max m x)"

definition local_max :: "(int \<Rightarrow> real) \<Rightarrow> int \<Rightarrow> int \<Rightarrow> int \<Rightarrow> real" where
  "local_max amp rank csize nener_in = max_loop (map amp (iw_local rank csize nener_in)) 0"

text \<open>
  \<^verbatim>\<open>comm.allreduce(..., op = MPI.MAX)\<close> over the contributions of the members of the
  communicator, in rank order; a communicator has at least one member.
\<close>

fun allreduce_MAX :: "real list \<Rightarrow> real" where
  "allreduce_MAX (x # xs) = fold max xs x"

text \<open>
  Lines 151 to 155 for the process of rank \<open>rank\<close>: every other member contributes the
  value of the same loop at its own rank.
\<close>

definition Mv1c1_max :: "(int \<Rightarrow> real) \<Rightarrow> int \<Rightarrow> int \<Rightarrow> int \<Rightarrow> real" where
  "Mv1c1_max amp rank csize nener_in =
     (let m = local_max amp rank csize nener_in in
      if csize > 1 then
        allreduce_MAX (map (\<lambda>r. local_max amp r csize nener_in) (range2 0 csize))
      else m)"

section \<open>The pool index as the specification words it\<close>

text \<open>
  The formulas of the specification for the pool of rank \<open>r\<close>, with \<open>N\<close> pools, minimum
  pool size \<open>M\<close> and \<open>P\<close> processes: \<open>r mod N\<close> under the remainder policy; under the
  contiguous policy, with \<open>R = P mod M\<close>, \<open>floor (r / (M + 1))\<close> when \<open>r < R (M + 1)\<close> and
  \<open>floor ((r - R (M + 1)) / M) + R\<close> otherwise.
\<close>

definition spec_pool_count :: "int \<Rightarrow> int \<Rightarrow> int" where
  "spec_pool_count P M = P div (min M P)"

definition spec_pool_id :: "int \<Rightarrow> int \<Rightarrow> bool \<Rightarrow> int \<Rightarrow> int" where
  "spec_pool_id P M remainder r =
     (if remainder then r mod (spec_pool_count P M)
      else (let R = P mod M in
            if r < R * (M + 1) then r div (M + 1)
            else (r - R * (M + 1)) div M + R))"

section \<open>The work space and its blocks as the specification words them\<close>

text \<open>
  The work space: the tuples \<open>(s, k)\<close> with \<open>s\<close> in \<open>[0, nspin)\<close> and \<open>k\<close> in
  \<open>[0, nk_use)\<close>, listed with \<open>s\<close> outermost.
\<close>

definition work_space :: "int \<Rightarrow> int \<Rightarrow> (int \<times> int) list" where
  "work_space nspin nk_use =
     concat (map (\<lambda>s. map (\<lambda>k. (s, k)) (range2 0 nk_use)) (range2 0 nspin))"



section \<open>Arithmetic of the primitives\<close>

lemma int_div_nonneg: "0 \<le> a \<Longrightarrow> 0 < b \<Longrightarrow> int_div a b = Inr (a div b)"
  by (cases "a = 0") (simp_all add: int_div_def)

lemma py_mod_nonzero: "b \<noteq> 0 \<Longrightarrow> py_mod a b = Inr (a mod b)"
  by (simp add: py_mod_def)

lemma pool_count_pos:
  assumes "1 \<le> (P::int)" "1 \<le> M"
  shows "1 \<le> P div (min M P)"
proof -
  have "0 < min M P" "min M P \<le> P" using assms by auto
  then show ?thesis
    by (metis div_self int_one_le_iff_zero_less less_irrefl zdiv_mono1)
qed

lemma pool_index_remainder:
  assumes "1 \<le> P" "1 \<le> M"
  shows "pool_index P r M True = Inr (min M P, P div (min M P), r mod (P div (min M P)))"
proof -
  have n: "1 \<le> P div (min M P)" using assms by (rule pool_count_pos)
  have m: "0 < min M P" using assms by auto
  have eq: "(if P < M then P else M) = min M P" by auto
  show ?thesis
    unfolding pool_index_def eq Let_def
    using n m assms by (simp add: int_div_nonneg py_mod_nonzero)
qed

lemma pool_index_contiguous:
  assumes "1 \<le> P" "1 \<le> M" "0 \<le> r"
  shows "pool_index P r M False =
           Inr (min M P, P div (min M P),
                if r < (P mod (min M P)) * (min M P + 1) then r div (min M P + 1)
                else (r - (P mod (min M P)) * (min M P + 1)) div (min M P) + P mod (min M P))"
proof -
  have m: "0 < min M P" using assms by auto
  have eq: "(if P < M then P else M) = min M P" by auto
  show ?thesis
    unfolding pool_index_def eq Let_def
    using m assms by (simp add: int_div_nonneg py_mod_nonzero)
qed

lemma int_div_eq_iff:
  fixes a d q :: int
  assumes "0 < d"
  shows "a div d = q \<longleftrightarrow> q * d \<le> a \<and> a < (q + 1) * d"
proof
  assume "a div d = q"
  then have "a = q * d + a mod d" using div_mult_mod_eq [of a d] by simp
  moreover have "0 \<le> a mod d" "a mod d < d" using assms by simp_all
  ultimately show "q * d \<le> a \<and> a < (q + 1) * d" by (simp add: algebra_simps)
next
  assume h: "q * d \<le> a \<and> a < (q + 1) * d"
  have "a = d * q + (a - q * d)" by (simp add: algebra_simps)
  moreover have "0 \<le> a - q * d" "a - q * d < d" using h by (simp_all add: algebra_simps)
  ultimately show "a div d = q" by (metis int_div_pos_eq)
qed

lemma round_half_even_cases: "round_half_even n d = n div d \<or> round_half_even n d = n div d + 1"
  by (simp add: round_half_even_def Let_def)

lemma round_up_half: "round_half_even n d = n div d + 1 \<Longrightarrow> d \<le> 2 * (n mod d)"
  by (auto simp: round_half_even_def Let_def split: if_splits)

lemma round_half_even_trunc:
  fixes a b :: int and k :: nat
  assumes "0 \<le> a" "0 < b" "a < 2 ^ 53" "2 ^ 52 * b \<le> a * 2 ^ k"
  shows "round_half_even (a * 2 ^ k) b div 2 ^ k = a div b"
proof -
  let ?K = "(2::int) ^ k"
  let ?q0 = "(a * ?K) div b" and ?rem = "(a * ?K) mod b"
  let ?Q = "a div b"
  have K: "0 < ?K" by simp
  have q0: "?q0 div ?K = ?Q"
  proof -
    have "?q0 div ?K = (a * ?K) div (b * ?K)" using assms(2) by (simp add: zdiv_zmult2_eq)
    then show ?thesis by simp
  qed
  show ?thesis
  proof (cases "round_half_even (a * ?K) b = ?q0")
    case True
    then show ?thesis using q0 by simp
  next
    case False
    then have up: "round_half_even (a * ?K) b = ?q0 + 1"
      using round_half_even_cases [of "a * ?K" b] by simp
    then have half: "b \<le> 2 * ?rem" by (rule round_up_half)
    have "(?q0 + 1) div ?K = ?Q"
    proof (rule ccontr)
      assume neq: "(?q0 + 1) div ?K \<noteq> ?Q"
      have lo: "?Q * ?K \<le> ?q0" using q0 K by (metis int_div_eq_iff)
      have hi: "?q0 < (?Q + 1) * ?K" using q0 K by (metis int_div_eq_iff)
      have "\<not> (?Q * ?K \<le> ?q0 + 1 \<and> ?q0 + 1 < (?Q + 1) * ?K)"
        using neq int_div_eq_iff [OF K, of "?q0 + 1" ?Q] by simp
      then have top: "?q0 + 1 = (?Q + 1) * ?K" using lo hi by linarith
      have split: "a * ?K = ?q0 * b + ?rem" by simp
      have aq: "a < (?Q + 1) * b"
        using int_div_eq_iff [OF assms(2), of a ?Q] by simp
      define t where "t = (?Q + 1) * b - a"
      have t: "1 \<le> t" using aq by (simp add: t_def)
      have "2 * (a * ?K) = 2 * (?q0 * b + ?rem)" using split by (rule arg_cong)
      then have "2 * (a * ?K) = 2 * ?q0 * b + 2 * ?rem" by (simp only: distrib_left mult.assoc)
      then have "(2 * ?q0 + 1) * b \<le> 2 * (a * ?K)" using half by (simp add: algebra_simps)
      moreover have "(2 * ?q0 + 1) * b = 2 * ((?Q + 1) * ?K) * b - b"
      proof -
        have "2 * ?q0 + 1 = 2 * ((?Q + 1) * ?K) - 1" using top by linarith
        then have "(2 * ?q0 + 1) * b = (2 * ((?Q + 1) * ?K) - 1) * b" by (simp only:)
        then show ?thesis by (simp only: left_diff_distrib mult_1)
      qed
      ultimately have "2 * ((?Q + 1) * ?K) * b - b \<le> 2 * (a * ?K)" by simp
      then have "2 * ?K * ((?Q + 1) * b - a) \<le> b" by (simp add: algebra_simps)
      then have tb: "2 * ?K * t \<le> b" by (simp add: t_def)
      have m1: "2 * ?K * 1 \<le> 2 * ?K * t" using t K by (intro mult_left_mono) simp_all
      have b2: "2 * ?K \<le> b" using m1 tb unfolding mult_1_right by linarith
      have "a * ?K < 2 ^ 53 * ?K" using assms(3) K by (simp add: mult_strict_right_mono)
      also have "\<dots> = 2 ^ 52 * (2 * ?K)" by simp
      also have "\<dots> \<le> 2 ^ 52 * b" using b2 by (intro mult_left_mono) simp_all
      finally show False using assms(4) by simp
    qed
    then show ?thesis using up by simp
  qed
qed

lemma float_quotient_exact:
  assumes "0 < a" "a < 2 ^ 53" "0 < b"
  shows "float_quotient a b = Inr (a div b)"
proof -
  define la lb where "la = bitlen a" and "lb = bitlen b"
  have ba: "2 ^ nat (la - 1) \<le> a" "a < 2 ^ nat la"
    using bitlen_bounds [OF assms(1)] by (simp_all add: la_def)
  have bb: "b < 2 ^ nat lb" using bitlen_bounds [OF assms(3)] by (simp add: lb_def)
  have la1: "1 \<le> la" using assms(1) bitlen_eq_zero_iff [of a] bitlen_nonneg [of a]
    unfolding la_def by linarith
  have lb1: "1 \<le> lb" using assms(3) bitlen_eq_zero_iff [of b] bitlen_nonneg [of b]
    unfolding lb_def by linarith
  have "(2::int) ^ nat (la - 1) < 2 ^ 53" using ba(1) assms(2) by linarith
  then have "nat (la - 1) < 53" by (simp only: power_strict_increasing_iff [of 2] one_less_numeral_iff semiring_norm)
  then have la53: "la \<le> 53" by linarith
  define e0 where "e0 = la - lb - 53"
  define k0 where "k0 = nat (- e0)"
  have e0: "e0 \<le> - 1" using la53 lb1 by (simp add: e0_def)
  have ne0: "nat e0 = 0" using e0 by simp
  have q53: "a div b < 2 ^ 53"
  proof -
    have "a div b \<le> a div 1" using assms by (intro zdiv_mono2) simp_all
    then have "a div b \<le> a" by simp
    then show ?thesis using assms(2) by linarith
  qed
  have big: "(2::int) ^ 53 \<le> 2 ^ 1024" by simp
  show ?thesis
  proof (cases "2 ^ 53 * b \<le> a * 2 ^ k0")
    case True
    define k where "k = nat (- (e0 + 1))"
    have kk: "k0 = Suc k" using e0 by (simp add: k0_def k_def)
    have ne: "nat (e0 + 1) = 0" using e0 by simp
    have kd: "nat (- e0 - 1) = k" by (simp add: k_def)
    have "2 ^ 53 * b \<le> 2 * (a * 2 ^ k)" using True by (simp add: kk)
    then have le: "2 ^ 52 * b \<le> a * 2 ^ k" by simp
    have R: "round_half_even (a * 2 ^ k) b div 2 ^ k = a div b"
      using assms le by (intro round_half_even_trunc) simp_all
    show ?thesis
    proof (cases "e0 + 1 = 0")
      case z: True
      then have k0': "k = 0" by (simp add: k_def)
      have m: "round_half_even a b = a div b" using R by (simp add: k0')
      show ?thesis
        unfolding float_quotient_def la_def [symmetric] lb_def [symmetric] e0_def [symmetric] Let_def
        using True z m q53 big by (simp add: ne0 k0_def [symmetric])
    next
      case nz: False
      then have neg: "e0 + 1 < 0" using e0 by simp
      show ?thesis
        unfolding float_quotient_def la_def [symmetric] lb_def [symmetric] e0_def [symmetric] Let_def
        using True neg R by (simp add: ne0 ne k0_def [symmetric] kd)
    qed
  next
    case False
    have "nat (la - 1) + k0 = 52 + nat lb" using la1 lb1 la53 by (simp add: k0_def e0_def) 
    then have "(2::int) ^ nat (la - 1) * 2 ^ k0 = 2 ^ 52 * 2 ^ nat lb"
      by (simp only: power_add [symmetric])
    moreover have "2 ^ nat (la - 1) * 2 ^ k0 \<le> a * (2::int) ^ k0"
      using ba(1) by (intro mult_right_mono) simp_all
    moreover have "(2::int) ^ 52 * b \<le> 2 ^ 52 * 2 ^ nat lb"
      using bb by (intro mult_left_mono) simp_all
    ultimately have le: "2 ^ 52 * b \<le> a * 2 ^ k0" by linarith
    have R: "round_half_even (a * 2 ^ k0) b div 2 ^ k0 = a div b"
      using assms le by (intro round_half_even_trunc) simp_all
    have neg: "e0 < 0" using e0 by simp
    show ?thesis
      unfolding float_quotient_def la_def [symmetric] lb_def [symmetric] e0_def [symmetric] Let_def
      using False neg R by (simp add: ne0 k0_def [symmetric])
  qed
qed

lemma int_true_div_exact:
  assumes "0 \<le> a" "a < 2 ^ 53" "0 < b"
  shows "int_true_div a b = Inr (a div b)"
proof (cases "a = 0")
  case True
  then show ?thesis using assms by (simp add: int_true_div_def)
next
  case False
  then have "0 < a" using assms by simp
  then show ?thesis
    using assms float_quotient_exact [of a b] by (simp add: int_true_div_def)
qed

lemma int_div_is_int_true_div:
  assumes "0 \<le> a" "a < 2 ^ 53" "0 < b"
  shows "int_div a b = int_true_div a b"
  using assms by (simp add: int_div_nonneg int_true_div_exact)

lemma filter_upto_eq:
  assumes "\<And>x. l \<le> x \<and> x \<le> u \<and> Q x \<longleftrightarrow> a \<le> x \<and> x \<le> b"
  shows "filter Q [l..u] = [a..b]"
proof (rule sorted_distinct_set_unique)
  show "sorted (filter Q [l..u])" by (simp add: sorted_wrt_filter)
  show "set (filter Q [l..u]) = set [a..b]"
  proof (rule set_eqI)
    fix x
    have "x \<in> set (filter Q [l..u]) \<longleftrightarrow> l \<le> x \<and> x \<le> u \<and> Q x" by auto
    also have "\<dots> \<longleftrightarrow> a \<le> x \<and> x \<le> b" by (rule assms)
    also have "\<dots> \<longleftrightarrow> x \<in> set [a..b]" by simp
    finally show "x \<in> set (filter Q [l..u]) \<longleftrightarrow> x \<in> set [a..b]" .
  qed
qed simp_all

lemma length_range2: "a \<le> b \<Longrightarrow> int (length (range2 a b)) = b - a"
  by (simp add: range2_def)

lemma set_concat_stripes:
  "set (concat (map (\<lambda>i. filter (\<lambda>x. f x = i) xs) js)) = {x \<in> set xs. f x \<in> set js}"
  by auto

lemma distinct_concat_stripes:
  assumes "distinct xs" "distinct js"
  shows "distinct (concat (map (\<lambda>i. filter (\<lambda>x. f x = i) xs) js))"
  using assms(2)
proof (induction js)
  case Nil
  then show ?case by simp
next
  case (Cons j js)
  have "set (filter (\<lambda>x. f x = j) xs) \<inter> set (concat (map (\<lambda>i. filter (\<lambda>x. f x = i) xs) js)) = {}"
    using Cons.prems unfolding set_concat_stripes by auto
  then show ?case using Cons assms(1) by simp
qed

lemma int_sum_list: "int (sum_list (map f xs)) = (\<Sum>x\<leftarrow>xs. int (f x))"
  by (induction xs) simp_all

section \<open>Pool construction\<close>

lemma set_pool_at_eq:
  assumes "pool_index P r M mode = Inr (npp, n, i)" "0 < M"
  shows "set_pool_at P r M mode =
         Inr ((pool_init (para_init (Some (P, r))))
              \<lparr>pool_npp := Some npp, pool_n := Some n, pool_i := Some i,
               pool_comm := Some (Split (range2 0 P) (split_color P M mode) (\<lambda>k. k) r),
               pool_size := Some (Get_size (Split (range2 0 P) (split_color P M mode) (\<lambda>k. k) r)),
               pool_rank := Some (Get_rank (Split (range2 0 P) (split_color P M mode) (\<lambda>k. k) r) r),
               pool_roots := Some (roots_of (gather_ranks (range2 0 P) (split_color P M mode))),
               pool_rootcomm := Some (Create_group_Incl (range2 0 P) (roots_of (gather_ranks (range2 0 P) (split_color P M mode))) r),
               pool_up := True\<rparr>)"
  using assms by (simp add: set_pool_at_def set_pool_def para_init_def pool_init_def Let_def)

lemma attr_pool_i:
  assumes "pool_index P r M mode = Inr (npp, n, i)" "0 < M"
  shows "attr pool_i (set_pool_at P r M mode) = Some i"
  by (simp add: set_pool_at_eq [OF assms] attr_def)

lemma attr_pool_n:
  assumes "pool_index P r M mode = Inr (npp, n, i)" "0 < M"
  shows "attr pool_n (set_pool_at P r M mode) = Some n"
  by (simp add: set_pool_at_eq [OF assms] attr_def)

lemma split_color_eq:
  assumes "1 \<le> P" "1 \<le> M" "0 \<le> r"
  shows "split_color P M mode r = attr pool_i (set_pool_at P r M mode)"
proof (cases mode)
  case True
  have n: "P div min M P \<noteq> 0" using pool_count_pos [OF assms(1,2)] by simp
  show ?thesis
    using True assms n
    by (simp add: split_color_def pool_index_remainder attr_pool_i [OF pool_index_remainder] py_mod_nonzero)
next
  case False
  show ?thesis
    using False assms
    by (simp add: split_color_def pool_index_contiguous attr_pool_i [OF pool_index_contiguous])
qed

lemma attr_pool_size:
  assumes "1 \<le> P" "1 \<le> M" "0 \<le> r" "r < P"
    and j: "attr pool_i (set_pool_at P r M mode) = Some j"
  shows "attr pool_size (set_pool_at P r M mode) = Some (int (length (pool_ranks P M mode j)))"
proof -
  obtain npp n i where pi: "pool_index P r M mode = Inr (npp, n, i)"
    using assms(1-3) pool_index_remainder [of P M r] pool_index_contiguous [of P M r]
    by (cases mode) auto
  have M: "0 < M" using assms by simp
  have same: "filter (\<lambda>r'. split_color P M mode r' = split_color P M mode r) (range2 0 P)
      = pool_ranks P M mode j"
    unfolding pool_ranks_def
    by (rule filter_cong [OF refl]) (use assms in \<open>auto simp: split_color_eq range2_def\<close>)
  show ?thesis
    by (simp add: set_pool_at_eq [OF pi M] attr_def Split_def same)
qed

lemma contiguous_id:
  assumes "1 \<le> P" "1 \<le> M" "M \<le> P" "0 \<le> r"
  shows "attr pool_i (set_pool_at P r M False) = Some (spec_pool_id P M False r)"
proof -
  have m: "min M P = M" using assms by simp
  show ?thesis
    using attr_pool_i [OF pool_index_contiguous [OF assms(1,2,4)]] assms
    by (simp add: m spec_pool_id_def Let_def)
qed

lemma contiguous_id_mono:
  assumes "1 \<le> M" "0 \<le> r" "r \<le> r'"
  shows "spec_pool_id P M False r \<le> spec_pool_id P M False r'"
proof -
  let ?R = "P mod M"
  let ?B = "?R * (M + 1)"
  have M1: "0 < M + 1" and M0: "0 < M" using assms by simp_all
  consider "r' < ?B" | "r < ?B" "?B \<le> r'" | "?B \<le> r" using assms by linarith
  then show ?thesis
  proof cases
    case 1
    then show ?thesis using assms M1 by (simp add: spec_pool_id_def Let_def zdiv_mono1)
  next
    case 2
    have "(r div (M + 1)) * (M + 1) \<le> r"
      using int_div_eq_iff [OF M1, of r "r div (M + 1)"] by simp
    then have "(r div (M + 1)) * (M + 1) < ?R * (M + 1)" using 2 by linarith
    then have "r div (M + 1) < ?R" using M1 by (simp add: mult_less_cancel_right)
    moreover have "0 \<le> (r' - ?B) div M" using 2 M0 by (simp add: pos_imp_zdiv_nonneg_iff)
    ultimately show ?thesis using 2 by (simp add: spec_pool_id_def Let_def)
  next
    case 3
    then have "(r - ?B) div M \<le> (r' - ?B) div M" using assms M0 by (simp add: zdiv_mono1)
    then show ?thesis using 3 assms by (simp add: spec_pool_id_def Let_def)
  qed
qed

lemma contiguous_id_first:
  assumes "1 \<le> M" "M \<le> P" "P mod M \<le> P div M" "0 \<le> j" "j < P mod M"
  shows "spec_pool_id P M False r = j \<longleftrightarrow> j * (M + 1) \<le> r \<and> r < (j + 1) * (M + 1)"
proof -
  let ?R = "P mod M"
  let ?B = "?R * (M + 1)"
  have M1: "0 < M + 1" and M0: "0 < M" using assms by simp_all
  have le: "(j + 1) * (M + 1) \<le> ?B" using assms by (intro mult_right_mono) simp_all
  show ?thesis
  proof (cases "r < ?B")
    case True
    then show ?thesis by (simp add: spec_pool_id_def Let_def int_div_eq_iff [OF M1])
  next
    case False
    then have "0 \<le> (r - ?B) div M" using M0 by (simp add: pos_imp_zdiv_nonneg_iff)
    then have "spec_pool_id P M False r \<noteq> j" using False assms by (simp add: spec_pool_id_def Let_def)
    moreover have "\<not> r < (j + 1) * (M + 1)" using False le by linarith
    ultimately show ?thesis by simp
  qed
qed

lemma contiguous_id_rest:
  assumes "1 \<le> M" "M \<le> P" "P mod M \<le> j"
  shows "spec_pool_id P M False r = j \<longleftrightarrow> j * M + P mod M \<le> r \<and> r < (j + 1) * M + P mod M"
proof -
  let ?R = "P mod M"
  let ?B = "?R * (M + 1)"
  have M1: "0 < M + 1" and M0: "0 < M" using assms by simp_all
  have R0: "0 \<le> ?R" using M0 by simp
  have le: "?B \<le> j * M + ?R"
  proof -
    have "?R * M \<le> j * M" using assms by (intro mult_right_mono) simp_all
    then show ?thesis by (simp add: algebra_simps)
  qed
  show ?thesis
  proof (cases "r < ?B")
    case True
    have "(r div (M + 1)) * (M + 1) \<le> r"
      using int_div_eq_iff [OF M1, of r "r div (M + 1)"] by simp
    then have "(r div (M + 1)) * (M + 1) < ?R * (M + 1)" using True by linarith
    then have "r div (M + 1) < ?R" using M1 by (simp add: mult_less_cancel_right)
    then have "spec_pool_id P M False r \<noteq> j" using True assms by (simp add: spec_pool_id_def Let_def)
    moreover have "\<not> j * M + ?R \<le> r" using True le by linarith
    ultimately show ?thesis by simp
  next
    case False
    have "spec_pool_id P M False r = j \<longleftrightarrow> (r - ?B) div M = j - ?R" using False by (auto simp: spec_pool_id_def Let_def)
    also have "\<dots> \<longleftrightarrow> (j - ?R) * M \<le> r - ?B \<and> r - ?B < (j - ?R + 1) * M"
      by (rule int_div_eq_iff [OF M0])
    also have "\<dots> \<longleftrightarrow> j * M + P mod M \<le> r \<and> r < (j + 1) * M + P mod M"
      by (simp add: algebra_simps)
    finally show ?thesis .
  qed
qed

lemma pool_ranks_contiguous:
  assumes "1 \<le> P" "1 \<le> M" "M \<le> P" "P mod M \<le> P div M" "0 \<le> j" "j < P div M"
  shows "pool_ranks P M False j =
           (if j < P mod M then range2 (j * (M + 1)) ((j + 1) * (M + 1))
            else range2 (j * M + P mod M) ((j + 1) * M + P mod M))"
proof -
  let ?R = "P mod M" and ?N = "P div M"
  have M0: "0 < M" using assms by simp
  have P: "P = ?N * M + ?R" by simp
  have R0: "0 \<le> ?R" using M0 by simp
  have ids: "\<And>r. 0 \<le> r \<Longrightarrow> attr pool_i (set_pool_at P r M False) = Some (spec_pool_id P M False r)"
    using assms(1-3) by (rule contiguous_id)
  show ?thesis
  proof (cases "j < ?R")
    case True
    have a: "(j + 1) * (M + 1) \<le> ?R * (M + 1)" using True assms by (intro mult_right_mono) simp_all
    have b: "?R * (M + 1) = ?R * M + ?R" by (simp add: algebra_simps)
    have c: "?R * M \<le> ?N * M" using assms(4) M0 by (intro mult_right_mono) simp_all
    have up: "(j + 1) * (M + 1) \<le> P" using a b c P by linarith
    have lo: "0 \<le> j * (M + 1)" using assms by simp
    have "filter (\<lambda>r. attr pool_i (set_pool_at P r M False) = Some j) [0..P - 1]
            = [j * (M + 1)..(j + 1) * (M + 1) - 1]"
    proof (rule filter_upto_eq)
      fix x
      show "0 \<le> x \<and> x \<le> P - 1 \<and> attr pool_i (set_pool_at P x M False) = Some j \<longleftrightarrow>
            j * (M + 1) \<le> x \<and> x \<le> (j + 1) * (M + 1) - 1"
      proof (cases "0 \<le> x")
        case True
        have "attr pool_i (set_pool_at P x M False) = Some j \<longleftrightarrow>
              j * (M + 1) \<le> x \<and> x < (j + 1) * (M + 1)"
          unfolding ids [OF True] option.inject
          by (rule contiguous_id_first [OF assms(2,3,4,5) \<open>j < ?R\<close>])
        then show ?thesis using up lo True by linarith
      next
        case False
        then show ?thesis using lo by linarith
      qed
    qed
    then show ?thesis using True by (simp add: pool_ranks_def range2_def)
  next
    case False
    have "(j + 1) * M \<le> ?N * M" using assms M0 by (intro mult_right_mono) simp_all
    then have up: "(j + 1) * M + ?R \<le> P" using P by linarith
    have lo: "0 \<le> j * M + ?R" using assms R0 M0 by simp
    have "filter (\<lambda>r. attr pool_i (set_pool_at P r M False) = Some j) [0..P - 1]
            = [j * M + ?R..(j + 1) * M + ?R - 1]"
    proof (rule filter_upto_eq)
      fix x
      show "0 \<le> x \<and> x \<le> P - 1 \<and> attr pool_i (set_pool_at P x M False) = Some j \<longleftrightarrow>
            j * M + ?R \<le> x \<and> x \<le> (j + 1) * M + ?R - 1"
      proof (cases "0 \<le> x")
        case True
        have "attr pool_i (set_pool_at P x M False) = Some j \<longleftrightarrow>
              j * M + ?R \<le> x \<and> x < (j + 1) * M + ?R"
          unfolding ids [OF True] option.inject
          using \<open>\<not> j < ?R\<close> by (intro contiguous_id_rest [OF assms(2,3)]) simp
        then show ?thesis using up lo True by linarith
      next
        case False
        then show ?thesis using lo by linarith
      qed
    qed
    then show ?thesis using False by (simp add: pool_ranks_def range2_def)
  qed
qed

lemma length_pool_ranks_contiguous:
  assumes "1 \<le> P" "1 \<le> M" "M \<le> P" "P mod M \<le> P div M" "0 \<le> j" "j < P div M"
  shows "int (length (pool_ranks P M False j)) = (if j < P mod M then M + 1 else M)"
proof (cases "j < P mod M")
  case True
  have a: "(j + 1) * (M + 1) - j * (M + 1) = M + 1" by (simp add: algebra_simps)
  have c: "j * (M + 1) \<le> (j + 1) * (M + 1)" using a assms(2) by linarith
  have "pool_ranks P M False j = range2 (j * (M + 1)) ((j + 1) * (M + 1))"
    using pool_ranks_contiguous [OF assms] True by simp
  then have "int (length (pool_ranks P M False j)) = (j + 1) * (M + 1) - j * (M + 1)"
    using length_range2 [OF c] by simp
  then show ?thesis using a True by simp
next
  case False
  have b: "(j + 1) * M + P mod M - (j * M + P mod M) = M" by (simp add: algebra_simps)
  have d: "j * M + P mod M \<le> (j + 1) * M + P mod M" using b assms(2) by linarith
  have "pool_ranks P M False j = range2 (j * M + P mod M) ((j + 1) * M + P mod M)"
    using pool_ranks_contiguous [OF assms] False by simp
  then have "int (length (pool_ranks P M False j)) = (j + 1) * M + P mod M - (j * M + P mod M)"
    using length_range2 [OF d] by simp
  then show ?thesis using b False by simp
qed

lemma spec_pool_id_clamped:
  assumes "1 \<le> P" "1 \<le> M" "0 \<le> r" "r < P"
  shows "spec_pool_id P (min M P) mode r = spec_pool_id P M mode r"
proof (cases "M \<le> P")
  case True
  then show ?thesis by (simp add: min_def)
next
  case False
  then have PM: "P < M" by simp
  have a: "r < P * (M + 1)"
  proof -
    have "P * 1 \<le> P * (M + 1)" using assms by (intro mult_left_mono) simp_all
    then have "P \<le> P * (M + 1)" by (simp only: mult_1_right)
    then show ?thesis using assms by linarith
  qed
  have b: "r div (M + 1) = 0" using assms PM by simp
  have c: "r div P = 0" using assms by simp
  have "spec_pool_id P P mode r = spec_pool_id P M mode r"
    using assms PM a b c by (simp add: spec_pool_id_def spec_pool_count_def Let_def)
  then show ?thesis using PM by (simp add: min_def)
qed

text \<open>
  Claim C4. For \<open>P \<ge> 1\<close> processes, a requested minimum pool size \<open>M \<ge> 1\<close> and every
  rank \<open>r\<close> in \<open>[0, P)\<close>, \<^verbatim>\<open>set_pool\<close> returns with \<^verbatim>\<open>self.n\<close> the pool count of
  the specification and \<^verbatim>\<open>self.i\<close> the pool id of its formulas: \<open>r mod N\<close> under the
  remainder policy; under the contiguous policy, with \<open>R = P mod M\<close>, \<open>r div (M + 1)\<close>
  when \<open>r < R (M + 1)\<close> and \<open>(r - R (M + 1)) div M + R\<close> otherwise. The formulas give
  the same pool id for the requested \<open>M\<close> and for \<open>M\<close> clamped to \<open>P\<close>.
\<close>

theorem set_pool_index_matches_spec:
  assumes "1 \<le> P" "1 \<le> M" "0 \<le> r" "r < P"
  shows "attr pool_n (set_pool_at P r M mode) = Some (spec_pool_count P M) \<and>
         attr pool_i (set_pool_at P r M mode) = Some (spec_pool_id P (min M P) mode r) \<and>
         attr pool_i (set_pool_at P r M mode) = Some (spec_pool_id P M mode r)"
proof -
  have M0: "0 < M" using assms by simp
  have i: "attr pool_i (set_pool_at P r M mode) = Some (spec_pool_id P (min M P) mode r)"
  proof (cases mode)
    case True
    then show ?thesis
      using attr_pool_i [OF pool_index_remainder [OF assms(1,2)] M0, of r]
      by (simp add: spec_pool_id_def spec_pool_count_def)
  next
    case False
    then show ?thesis
      using attr_pool_i [OF pool_index_contiguous [OF assms(1,2,3)] M0]
      by (simp add: spec_pool_id_def Let_def)
  qed
  have n: "attr pool_n (set_pool_at P r M mode) = Some (spec_pool_count P M)"
  proof (cases mode)
    case True
    then show ?thesis
      using attr_pool_n [OF pool_index_remainder [OF assms(1,2)] M0, of r]
      by (simp add: spec_pool_count_def)
  next
    case False
    then show ?thesis
      using attr_pool_n [OF pool_index_contiguous [OF assms(1,2,3)] M0]
      by (simp add: spec_pool_count_def)
  qed
  show ?thesis using i n spec_pool_id_clamped [OF assms] by simp
qed

text \<open>
  The theorem at \<open>P = 10\<close>, \<open>M = 3\<close>, rank 5 under both policies, and at \<open>P = 5\<close>,
  \<open>M = 7\<close>, rank 4, where the pool size is clamped.
\<close>

theorem set_pool_index_matches_spec_witness:
  "attr pool_n (set_pool_at 10 5 3 False) = Some 3 \<and>
   attr pool_i (set_pool_at 10 5 3 False) = Some 1 \<and>
   attr pool_i (set_pool_at 10 5 3 True) = Some 2 \<and>
   attr pool_i (set_pool_at 5 4 7 False) = Some 0"
  using set_pool_index_matches_spec [of 10 3 5 False]
        set_pool_index_matches_spec [of 10 3 5 True]
        set_pool_index_matches_spec [of 5 7 4 False]
  by (simp add: spec_pool_id_def spec_pool_count_def)

text \<open>
  Claim C3, amended. Under the contiguous policy, for \<open>P \<ge> 1\<close> and \<open>1 \<le> M \<le> P\<close>: the pool
  ids do not decrease as the rank increases; and when \<open>R = P mod M\<close> is at most the pool
  count \<open>N = P div M\<close>, each of the first \<open>R\<close> pools has \<open>M + 1\<close> members and each of the
  remaining \<open>N - R\<close> pools has \<open>M\<close>, which is also the \<^verbatim>\<open>self.size\<close> every member
  of the pool holds.
\<close>

theorem contiguous_pool_blocks:
  assumes "1 \<le> P" "1 \<le> M" "M \<le> P"
  shows "(0 \<le> r \<and> r \<le> r' \<and> r' < P \<longrightarrow>
            (\<exists>j j'. attr pool_i (set_pool_at P r M False) = Some j \<and>
                    attr pool_i (set_pool_at P r' M False) = Some j' \<and> j \<le> j')) \<and>
         (P mod M \<le> P div M \<and> 0 \<le> j \<and> j < P div M \<longrightarrow>
            int (length (pool_ranks P M False j)) = (if j < P mod M then M + 1 else M) \<and>
            (\<forall>q \<in> set (pool_ranks P M False j).
               attr pool_size (set_pool_at P q M False) = Some (if j < P mod M then M + 1 else M)))"
proof (intro conjI impI)
  assume h: "0 \<le> r \<and> r \<le> r' \<and> r' < P"
  then have r': "0 \<le> r'" by simp
  have "spec_pool_id P M False r \<le> spec_pool_id P M False r'"
    using assms(2) h by (intro contiguous_id_mono) simp_all
  then show "\<exists>j j'. attr pool_i (set_pool_at P r M False) = Some j \<and>
                    attr pool_i (set_pool_at P r' M False) = Some j' \<and> j \<le> j'"
    using contiguous_id [OF assms, of r] contiguous_id [OF assms r'] h by simp
next
  assume h: "P mod M \<le> P div M \<and> 0 \<le> j \<and> j < P div M"
  then show len: "int (length (pool_ranks P M False j)) = (if j < P mod M then M + 1 else M)"
    using assms by (intro length_pool_ranks_contiguous) simp_all
  show "\<forall>q \<in> set (pool_ranks P M False j).
          attr pool_size (set_pool_at P q M False) = Some (if j < P mod M then M + 1 else M)"
  proof
    fix q assume "q \<in> set (pool_ranks P M False j)"
    then have q: "0 \<le> q" "q < P" "attr pool_i (set_pool_at P q M False) = Some j"
      by (auto simp: pool_ranks_def range2_def)
    show "attr pool_size (set_pool_at P q M False) = Some (if j < P mod M then M + 1 else M)"
      using attr_pool_size [OF assms(1,2) q] len by simp
  qed
qed

text \<open>
  The theorem at \<open>P = 10\<close>, \<open>M = 3\<close> (so \<open>R = 1\<close>, \<open>N = 3\<close>): ranks 3 and 4, and the
  sizes of pools 0 and 2.
\<close>

theorem contiguous_pool_blocks_witness:
  "(\<exists>j j'. attr pool_i (set_pool_at 10 3 3 False) = Some j \<and>
           attr pool_i (set_pool_at 10 4 3 False) = Some j' \<and> j \<le> j') \<and>
   int (length (pool_ranks 10 3 False 0)) = 4 \<and>
   int (length (pool_ranks 10 3 False 2)) = 3"
  using contiguous_pool_blocks [of 10 3 3 4 0] contiguous_pool_blocks [of 10 3 3 4 2]
  by simp

text \<open>
  Claim C3 as stated fails at \<open>P = 5\<close>, \<open>M = 3\<close>: there \<open>R = 2\<close> and \<open>N = 1\<close>, so pool 1
  is among the first \<open>R\<close> pools and should have \<open>M + 1 = 4\<close> members, but its only
  member is rank 4.
\<close>

theorem contiguous_pool_sizes_counterexample:
  "(1::int) \<le> 5 \<and> (1::int) \<le> 3 \<and> (3::int) \<le> 5 \<and> (1::int) < 5 mod 3 \<and>
   attr pool_i (set_pool_at 5 4 3 False) = Some 1 \<and>
   pool_ranks 5 3 False 1 = [4] \<and>
   int (length (pool_ranks 5 3 False 1)) \<noteq> 3 + 1 \<and>
   attr pool_size (set_pool_at 5 4 3 False) = Some 1"
  by code_simp

text \<open>
  The remainder policy: every rank gets a pool id in \<open>[0, N)\<close>, every pool has at least
  the clamped minimum pool size, and the pool sizes sum to \<open>P\<close>.
\<close>

lemma remainder_id:
  assumes "1 \<le> P" "1 \<le> M"
  shows "attr pool_i (set_pool_at P r M True) = Some (r mod (P div min M P))"
  using attr_pool_i [OF pool_index_remainder [OF assms], of r] assms by simp

lemma pool_ranks_remainder:
  assumes "1 \<le> P" "1 \<le> M"
  shows "pool_ranks P M True j = filter (\<lambda>r. r mod (P div min M P) = j) (range2 0 P)"
  by (simp add: pool_ranks_def remainder_id [OF assms])

lemma length_pool_ranks_remainder:
  assumes "1 \<le> P" "1 \<le> M" "0 \<le> j" "j < P div min M P"
  shows "min M P \<le> int (length (pool_ranks P M True j))"
proof -
  let ?N = "P div min M P" and ?m = "min M P"
  let ?S = "{r. 0 \<le> r \<and> r < P \<and> r mod ?N = j}"
  have m: "0 < ?m" using assms by simp
  have N: "0 < ?N" using pool_count_pos [OF assms(1,2)] by simp
  have NP: "?N * ?m \<le> P" using m by (metis div_mult_mod_eq add.commute le_add_same_cancel2 mult.commute pos_mod_sign)
  have len: "length (pool_ranks P M True j) = card ?S"
  proof -
    have "set (pool_ranks P M True j) = ?S"
      by (auto simp: pool_ranks_remainder [OF assms(1,2)] range2_def)
    moreover have "distinct (pool_ranks P M True j)"
      by (simp add: pool_ranks_remainder [OF assms(1,2)] range2_def)
    ultimately show ?thesis by (metis distinct_card)
  qed
  have inj: "inj_on (\<lambda>t. j + t * ?N) {0..<?m}" using N by (auto simp: inj_on_def)
  have sub: "(\<lambda>t. j + t * ?N) ` {0..<?m} \<subseteq> ?S"
  proof
    fix r assume "r \<in> (\<lambda>t. j + t * ?N) ` {0..<?m}"
    then obtain t where t: "0 \<le> t" "t < ?m" "r = j + t * ?N" by auto
    have "t + 1 \<le> ?m" using t by simp
    then have "(t + 1) * ?N \<le> ?m * ?N" using N by (intro mult_right_mono) simp_all
    then have "t * ?N + ?N \<le> P" using NP by (simp add: algebra_simps)
    then have a: "r < P" using t(3) assms(4) by linarith
    have "0 \<le> t * ?N" using t(1) N by simp
    then have b: "0 \<le> r" using t(3) assms(3) by linarith
    have c: "r mod ?N = j" using t(3) assms(3,4) by simp
    show "r \<in> ?S" using a b c by simp
  qed
  have fin: "finite ?S" by (rule finite_subset [of _ "{0..P}"]) auto
  have "card ((\<lambda>t. j + t * ?N) ` {0..<?m}) \<le> card ?S" using sub fin by (rule card_mono [rotated])
  then have "card {0..<?m} \<le> card ?S" using inj by (simp add: card_image)
  then have "nat ?m \<le> card ?S" by simp
  then show ?thesis using len by linarith
qed

lemma remainder_id_in_range:
  assumes "1 \<le> P" "1 \<le> M"
  shows "\<exists>j. attr pool_i (set_pool_at P r M True) = Some j \<and> 0 \<le> j \<and> j < P div min M P"
  using remainder_id [OF assms, of r] pool_count_pos [OF assms] by simp

lemma sum_pool_ranks_remainder:
  assumes "1 \<le> P" "1 \<le> M"
  shows "(\<Sum>j\<leftarrow>range2 0 (P div min M P). int (length (pool_ranks P M True j))) = P"
proof -
  let ?N = "P div min M P"
  let ?xs = "concat (map (\<lambda>j. filter (\<lambda>r. r mod ?N = j) (range2 0 P)) (range2 0 ?N))"
  have N: "0 < ?N" using pool_count_pos [OF assms] by simp
  have d: "distinct ?xs"
    by (rule distinct_concat_stripes) (simp_all add: range2_def)
  have "set ?xs = {r \<in> set (range2 0 P). r mod ?N \<in> set (range2 0 ?N)}"
    by (rule set_concat_stripes)
  also have "\<dots> = {0..P - 1}" using N by (auto simp: range2_def)
  finally have "card (set ?xs) = nat P" by simp
  moreover have "card (set ?xs) = length ?xs" using d by (rule distinct_card)
  ultimately have "length ?xs = nat P" by (simp only:)
  then have "(\<Sum>j\<leftarrow>range2 0 ?N. length (filter (\<lambda>r. r mod ?N = j) (range2 0 P))) = nat P"
    by (simp add: length_concat comp_def)
  then have "int (\<Sum>j\<leftarrow>range2 0 ?N. length (filter (\<lambda>r. r mod ?N = j) (range2 0 P))) = P"
    using assms(1) by simp
  then show ?thesis
    by (simp add: pool_ranks_remainder [OF assms] int_sum_list)
qed

text \<open>
  Claim C2 at \<open>P = 5\<close>, \<open>M = 3\<close> under the contiguous policy: \<^verbatim>\<open>set_pool\<close> leaves rank 4
  with \<^verbatim>\<open>self.n = 1\<close> pool but pool id \<^verbatim>\<open>self.i = 1\<close>, outside \<open>[0, N)\<close>, in a pool
  of size 1, below the minimum pool size 3.
\<close>

theorem set_pool_contiguous_pool_id_out_of_range:
  "attr pool_n (set_pool_at 5 4 3 False) = Some 1 \<and>
   attr pool_i (set_pool_at 5 4 3 False) = Some 1 \<and>
   attr pool_size (set_pool_at 5 4 3 False) = Some 1 \<and>
   attr pool_npp (set_pool_at 5 4 3 False) = Some 3"
  by code_simp

text \<open>
  Claim C7 at \<open>P = 5\<close>, \<open>M = 3\<close> under the contiguous policy: with \<^verbatim>\<open>self.n = 1\<close> pool,
  \<^verbatim>\<open>self.roots\<close> has the two entries 0 and 4.
\<close>

theorem set_pool_contiguous_roots_exceed_pool_count:
  "attr pool_n (set_pool_at 5 0 3 False) = Some 1 \<and>
   attr pool_roots (set_pool_at 5 0 3 False) = Some [0, 4] \<and>
   attr pool_rootcomm (set_pool_at 5 0 3 False) = Some (Comm [0, 4])"
  by code_simp

text \<open>
  Claim C10. Called with \<^verbatim>\<open>nproc_per_pool <= 0\<close> on a pool object as \<^verbatim>\<open>__init__\<close> leaves
  it, \<^verbatim>\<open>set_pool\<close> returns without raising and the object is unchanged: none of the
  attributes \<^verbatim>\<open>npp\<close>, \<^verbatim>\<open>n\<close>, \<^verbatim>\<open>i\<close>, \<^verbatim>\<open>comm\<close>, \<^verbatim>\<open>rank\<close>, \<^verbatim>\<open>size\<close>, \<^verbatim>\<open>roots\<close>,
  \<^verbatim>\<open>rootcomm\<close> exists and \<^verbatim>\<open>self.up\<close> is still \<^verbatim>\<open>False\<close>.
\<close>

theorem set_pool_nonpositive_unchanged:
  assumes "nproc_per_pool \<le> 0"
  shows "set_pool (pool_init para) nproc_per_pool remainder_mode = Inr (pool_init para) \<and>
         pool_npp (pool_init para) = None \<and> pool_n (pool_init para) = None \<and>
         pool_i (pool_init para) = None \<and> pool_comm (pool_init para) = None \<and>
         pool_rank (pool_init para) = None \<and> pool_size (pool_init para) = None \<and>
         pool_roots (pool_init para) = None \<and> pool_rootcomm (pool_init para) = None \<and>
         pool_up (pool_init para) = False"
  using assms by (simp add: set_pool_def pool_init_def Let_def)

text \<open>The theorem at \<^verbatim>\<open>nproc_per_pool\<close> 0 and -2, for rank 1 of 4 processes.\<close>

theorem set_pool_nonpositive_unchanged_witness:
  "set_pool (pool_init (para_init (Some (4, 1)))) 0 False = Inr (pool_init (para_init (Some (4, 1)))) \<and>
   attr pool_n (set_pool (pool_init (para_init (Some (4, 1)))) (- 2) True) = None \<and>
   attr pool_comm (set_pool (pool_init (para_init (Some (4, 1)))) (- 2) True) = None"
  using set_pool_nonpositive_unchanged [of 0 "para_init (Some (4, 1))" False]
        set_pool_nonpositive_unchanged [of "- 2" "para_init (Some (4, 1))" True]
  by (simp add: attr_def)

text \<open>
  Claim C8, amended. Called with a minimum pool size that is not positive, \<^verbatim>\<open>set_pool\<close>
  raises no error: it returns, no communicator is constructed (\<^verbatim>\<open>self.comm\<close> and
  \<^verbatim>\<open>self.rootcomm\<close> are as they were) and \<^verbatim>\<open>self.up\<close> is as it was.
\<close>

theorem set_pool_nonpositive_no_error:
  assumes "nproc_per_pool \<le> 0"
  shows "\<not> isl (set_pool self nproc_per_pool remainder_mode) \<and>
         attr pool_comm (set_pool self nproc_per_pool remainder_mode) = pool_comm self \<and>
         attr pool_rootcomm (set_pool self nproc_per_pool remainder_mode) = pool_rootcomm self \<and>
         attr (\<lambda>p. Some (pool_up p)) (set_pool self nproc_per_pool remainder_mode) = Some (pool_up self)"
  using assms by (simp add: set_pool_def Let_def attr_def)

text \<open>The theorem at \<^verbatim>\<open>nproc_per_pool = -1\<close>, for rank 0 of 4 processes.\<close>

theorem set_pool_nonpositive_no_error_witness:
  "\<not> isl (set_pool (pool_init (para_init (Some (4, 0)))) (- 1) False) \<and>
   attr pool_comm (set_pool (pool_init (para_init (Some (4, 0)))) (- 1) False) = None"
  using set_pool_nonpositive_no_error [of "- 1" "pool_init (para_init (Some (4, 0)))" False]
  by (simp add: pool_init_def)

text \<open>
  Claim C8 as stated fails at \<^verbatim>\<open>nproc_per_pool = 0\<close>: the call returns the object it was
  given, and raises nothing.
\<close>

theorem set_pool_zero_counterexample:
  "set_pool (pool_init (para_init (Some (4, 0)))) 0 False = Inr (pool_init (para_init (Some (4, 0)))) \<and>
   \<not> isl (set_pool (pool_init (para_init (Some (4, 0)))) 0 False)"
  by (simp add: set_pool_def Let_def)

section \<open>Work assignment\<close>

lemma sk_v1_k_loop_eq:
  assumes "pool_n self = Some n" "n \<noteq> 0" "pool_i self = Some i"
  shows "sk_v1_k_loop self nk s ks (skl, sko) =
           Inr (skl @ map (\<lambda>k. (s, k)) (filter (\<lambda>k. (s * nk + k) mod n = i) ks),
                sko @ map (\<lambda>k. s * nk + k) (filter (\<lambda>k. (s * nk + k) mod n = i) ks))"
  using assms by (induction ks arbitrary: skl sko) (simp_all add: py_mod_nonzero Let_def)

lemma sk_v1_s_loop_eq:
  assumes "pool_n self = Some n" "n \<noteq> 0" "pool_i self = Some i"
  shows "sk_v1_s_loop self nk nk_use ss (skl, sko) =
           Inr (skl @ concat (map (\<lambda>s. map (\<lambda>k. (s, k))
                                 (filter (\<lambda>k. (s * nk + k) mod n = i) (range2 0 nk_use))) ss),
                sko @ concat (map (\<lambda>s. map (\<lambda>k. s * nk + k)
                                 (filter (\<lambda>k. (s * nk + k) mod n = i) (range2 0 nk_use))) ss))"
  by (induction ss arbitrary: skl sko) (simp_all add: sk_v1_k_loop_eq [OF assms])

lemma striped_tuples:
  "concat (map (\<lambda>s. map (\<lambda>k. (s, k)) (filter (\<lambda>k. (s * nk + k) mod n = i) ks)) ss)
     = filter (\<lambda>(s, k). (s * nk + k) mod n = i) (concat (map (\<lambda>s. map (\<lambda>k. (s, k)) ks) ss))"
  by (induction ss) (simp_all add: filter_map comp_def)

lemma striped_offsets:
  "concat (map (\<lambda>s. map (\<lambda>k. s * nk + k) (filter (\<lambda>k. (s * nk + k) mod n = i) ks)) ss)
     = map (\<lambda>(s, k). s * nk + k)
         (filter (\<lambda>(s, k). (s * nk + k) mod n = i) (concat (map (\<lambda>s. map (\<lambda>k. (s, k)) ks) ss)))"
  by (induction ss) (simp_all add: filter_map comp_def)

lemma set_sk_list_v1_eq:
  assumes "pool_n self = Some n" "n \<noteq> 0" "pool_i self = Some i"
  shows "set_sk_list_v1 self nspin nk nk_use =
           Inr (self\<lparr>pool_nspin := Some nspin, pool_nk := Some nk, pool_nk_use := Some nk_use,
                  sk_list := Some (filter (\<lambda>(s, k). (s * nk + k) mod n = i) (work_space nspin nk_use)),
                  sk_offset := Some (map (\<lambda>(s, k). s * nk + k)
                     (filter (\<lambda>(s, k). (s * nk + k) mod n = i) (work_space nspin nk_use))),
                  nsk := Some (int (length (filter (\<lambda>(s, k). (s * nk + k) mod n = i) (work_space nspin nk_use))))\<rparr>)"
proof -
  let ?self1 = "self\<lparr>pool_nspin := Some nspin, pool_nk := Some nk, pool_nk_use := Some nk_use,
                     sk_list := Some [], sk_offset := Some []\<rparr>"
  have a: "pool_n ?self1 = Some n" "pool_i ?self1 = Some i" using assms by simp_all
  show ?thesis
    unfolding set_sk_list_v1_def Let_def sk_v1_s_loop_eq [OF a(1) assms(2) a(2)]
    by (simp add: striped_tuples striped_offsets work_space_def)
qed

























text \<open>
  Claim C6. Under the striped policy, with \<open>N \<ge> 1\<close> pools, \<^verbatim>\<open>set_sk_list_v1\<close> gives pool
  \<open>pid\<close> exactly the tuples \<open>(s, k)\<close> of the work space with \<open>(s * nk + k) mod N = pid\<close>,
  in the order of the work space, and \<^verbatim>\<open>sk_offset\<close> holds their offsets \<open>s * nk + k\<close>.
  For \<open>nspin = 2\<close>, \<open>nk = nk_use = 5\<close>, \<open>N = 3\<close>, pool 0 has \<open>[(0,0),(0,3),(1,1),(1,4)]\<close>
  at offsets \<open>[0,3,6,9]\<close>.
\<close>

theorem set_sk_list_v1_striped:
  assumes "1 \<le> N" "pool_n self = Some N" "pool_i self = Some pid"
  shows "attr sk_list (set_sk_list_v1 self nspin nk nk_use) =
           Some (filter (\<lambda>(s, k). (s * nk + k) mod N = pid) (work_space nspin nk_use)) \<and>
         attr sk_offset (set_sk_list_v1 self nspin nk nk_use) =
           Some (map (\<lambda>(s, k). s * nk + k)
                  (filter (\<lambda>(s, k). (s * nk + k) mod N = pid) (work_space nspin nk_use))) \<and>
         set (work_space nspin nk_use) = {0..<nspin} \<times> {0..<nk_use} \<and>
         attr sk_list (set_sk_list_v1 (pool_of 3 0) 2 5 5) = Some [(0, 0), (0, 3), (1, 1), (1, 4)] \<and>
         attr sk_offset (set_sk_list_v1 (pool_of 3 0) 2 5 5) = Some [0, 3, 6, 9]"
proof -
  have N: "N \<noteq> 0" using assms by simp
  have a: "attr sk_list (set_sk_list_v1 self nspin nk nk_use) =
           Some (filter (\<lambda>(s, k). (s * nk + k) mod N = pid) (work_space nspin nk_use))"
    by (simp add: set_sk_list_v1_eq [OF assms(2) N assms(3)] attr_def)
  have b: "attr sk_offset (set_sk_list_v1 self nspin nk nk_use) =
           Some (map (\<lambda>(s, k). s * nk + k)
                  (filter (\<lambda>(s, k). (s * nk + k) mod N = pid) (work_space nspin nk_use)))"
    by (simp add: set_sk_list_v1_eq [OF assms(2) N assms(3)] attr_def)
  have c: "set (work_space nspin nk_use) = {0..<nspin} \<times> {0..<nk_use}"
    by (auto simp: work_space_def range2_def)
  have d: "attr sk_list (set_sk_list_v1 (pool_of 3 0) 2 5 5) = Some [(0, 0), (0, 3), (1, 1), (1, 4)]"
    by code_simp
  have e: "attr sk_offset (set_sk_list_v1 (pool_of 3 0) 2 5 5) = Some [0, 3, 6, 9]"
    by code_simp
  show ?thesis using a b c d e by blast
qed

text \<open>The theorem at \<open>N = 3\<close>, pool 1, \<open>nspin = 2\<close>, \<open>nk = nk_use = 5\<close>.\<close>

theorem set_sk_list_v1_striped_witness:
  "attr sk_list (set_sk_list_v1 (pool_of 3 1) 2 5 5) = Some [(0, 1), (0, 4), (1, 2)] \<and>
   attr sk_offset (set_sk_list_v1 (pool_of 3 1) 2 5 5) = Some [1, 4, 7]"
proof -
  have n: "pool_n (pool_of 3 1) = Some 3" and i: "pool_i (pool_of 3 1) = Some 1"
    by (simp_all add: pool_of_def)
  have w: "work_space 2 5 = [(0,0),(0,1),(0,2),(0,3),(0,4),(1,0),(1,1),(1,2),(1,3),(1,4)]"
    by (simp add: work_space_def range2_def upto.simps)
  show ?thesis
    using set_sk_list_v1_striped [of 3 "pool_of 3 1" 1 2 5 5, OF _ n i] w
    by simp
qed




section \<open>The maximum over all processes\<close>

lemma set_range3:
  "0 < step \<Longrightarrow> set (range3 a b step) = {w. a \<le> w \<and> w < b \<and> (w - a) mod step = 0}"
proof (induction a b step rule: range3.induct)
  case (1 a b step)
  show ?case
  proof (cases "a < b")
    case True
    have "set (range3 a b step) = insert a (set (range3 (a + step) b step))"
      using True 1(2) by (subst range3.simps) simp
    also have "\<dots> = insert a {w. a + step \<le> w \<and> w < b \<and> (w - (a + step)) mod step = 0}"
      using 1 True by simp
    also have "\<dots> = {w. a \<le> w \<and> w < b \<and> (w - a) mod step = 0}"
    proof (rule set_eqI)
      fix w
      have e: "(w - (a + step)) mod step = (w - a) mod step"
        by (metis diff_diff_eq mod_diff_right_eq mod_self diff_zero)
      have "(w - a) mod step = 0 \<Longrightarrow> a < w \<Longrightarrow> a + step \<le> w"
      proof -
        assume h: "(w - a) mod step = 0" "a < w"
        then have "step dvd (w - a)" by (simp add: mod_eq_0_iff_dvd)
        then have "step \<le> w - a" using h(2) by (intro zdvd_imp_le) simp_all
        then show ?thesis by simp
      qed
      then show "w \<in> insert a {w. a + step \<le> w \<and> w < b \<and> (w - (a + step)) mod step = 0}
              \<longleftrightarrow> w \<in> {w. a \<le> w \<and> w < b \<and> (w - a) mod step = 0}"
        using True 1(2) e by (cases "w = a") auto
    qed
    finally show ?thesis .
  next
    case False
    then show ?thesis by (subst range3.simps) auto
  qed
qed

lemma max_loop_eq: "max_loop xs m = Max (insert m (set xs))"
proof (induction xs arbitrary: m)
  case Nil
  then show ?case by simp
next
  case (Cons x xs)
  have "Max (insert (max m x) (set xs)) = Max (insert m (insert x (set xs)))"
    by (cases "set xs = {}") (simp_all add: max.assoc)
  then show ?case using Cons by simp
qed

lemma allreduce_MAX_eq: "allreduce_MAX (x # xs) = Max (set (x # xs))"
  unfolding allreduce_MAX.simps by (rule Max.set_eq_fold [symmetric])

lemma allreduce_MAX_set: "xs \<noteq> [] \<Longrightarrow> allreduce_MAX xs = Max (set xs)"
proof (cases xs)
  case Nil
  assume "xs \<noteq> []"
  then show ?thesis using Nil by simp
next
  case (Cons a list)
  show ?thesis unfolding Cons by (rule allreduce_MAX_eq)
qed

lemma local_max_eq:
  assumes "0 < csize"
  shows "local_max amp r csize n =
           Max (insert 0 (amp ` {w. r \<le> w \<and> w \<le> n \<and> (w - r) mod csize = 0}))"
proof -
  have "{w. r \<le> w \<and> w < n + 1 \<and> (w - r) mod csize = 0} = {w. r \<le> w \<and> w \<le> n \<and> (w - r) mod csize = 0}"
    by auto
  then show ?thesis
    by (simp add: local_max_def iw_local_def max_loop_eq set_range3 [OF assms])
qed

lemma finite_stripe: "finite {w::int. r \<le> w \<and> w \<le> n \<and> (w - r) mod csize = 0}"
  by (rule finite_subset [of _ "{r..n}"]) auto

lemma local_max_le:
  assumes "0 < csize" "0 \<le> r"
  shows "local_max amp r csize n \<le> Max (insert 0 (amp ` {0..n}))"
  unfolding local_max_eq [OF assms(1)]
  using assms(2) by (intro Max_mono) (auto simp: finite_stripe)

lemma local_max_ge:
  assumes "0 < csize" "r \<le> w" "w \<le> n" "(w - r) mod csize = 0"
  shows "amp w \<le> local_max amp r csize n"
  unfolding local_max_eq [OF assms(1)]
  using assms by (intro Max_ge) (auto simp: finite_stripe)

lemma local_max_nonneg:
  assumes "0 < csize"
  shows "0 \<le> local_max amp r csize n"
  unfolding local_max_eq [OF assms(1)]
  by (intro Max_ge) (auto simp: finite_stripe)

lemma some_local_max_is_global:
  assumes "0 < csize"
  shows "\<exists>r. 0 \<le> r \<and> r < csize \<and> local_max amp r csize n = Max (insert 0 (amp ` {0..n}))"
proof -
  let ?G = "Max (insert 0 (amp ` {0..n}))"
  have "?G \<in> insert 0 (amp ` {0..n})" by (intro Max_in) simp_all
  then consider "?G = 0" | w where "0 \<le> w" "w \<le> n" "?G = amp w" by auto
  then show ?thesis
  proof cases
    case 1
    have "local_max amp 0 csize n \<le> ?G" using assms by (intro local_max_le) simp_all
    moreover have "0 \<le> local_max amp 0 csize n" using assms by (rule local_max_nonneg)
    ultimately have "local_max amp 0 csize n = ?G" using 1 by simp
    then show ?thesis using assms by (intro exI [of _ 0]) simp
  next
    case 2
    let ?r = "w mod csize"
    have r: "0 \<le> ?r" "?r < csize" using assms by simp_all
    have "?r \<le> w" using 2(1) assms by (simp add: zmod_le_nonneg_dividend)
    moreover have "(w - ?r) mod csize = 0" by (simp add: minus_mod_eq_mult_div)
    ultimately have "amp w \<le> local_max amp ?r csize n"
      using assms 2(2) by (intro local_max_ge) simp_all
    moreover have "local_max amp ?r csize n \<le> ?G" using assms r by (intro local_max_le) simp_all
    ultimately have "local_max amp ?r csize n = ?G" using 2(3) by simp
    then show ?thesis using r by (intro exI [of _ ?r]) simp
  qed
qed

lemma Mv1c1_max_eq:
  assumes "1 \<le> csize" "0 \<le> rank" "rank < csize"
  shows "Mv1c1_max amp rank csize n = Max (insert 0 (amp ` {0..n}))"
proof (cases "csize = 1")
  case True
  then have r: "rank = 0" using assms by simp
  obtain q where q: "0 \<le> q" "q < csize" "local_max amp q csize n = Max (insert 0 (amp ` {0..n}))"
    using some_local_max_is_global [of csize amp n] assms(1) by auto
  have q0: "q = 0" using q(1,2) True by simp
  have "local_max amp 0 csize n = Max (insert 0 (amp ` {0..n}))" using q(3) unfolding q0 .
  then show ?thesis using True r by (simp add: Mv1c1_max_def)
next
  case False
  then have c: "1 < csize" "0 < csize" using assms by simp_all
  let ?G = "Max (insert 0 (amp ` {0..n}))"
  let ?L = "map (\<lambda>r. local_max amp r csize n) (range2 0 csize)"
  have ne: "?L \<noteq> []" using c by (simp add: range2_def)
  have "Max (set ?L) = ?G"
  proof (rule Max_eqI)
    show "finite (set ?L)" by simp
    show "\<And>y. y \<in> set ?L \<Longrightarrow> y \<le> ?G"
      using c(2) by (auto simp: range2_def intro: local_max_le)
    obtain q where q: "0 \<le> q" "q < csize" "local_max amp q csize n = ?G"
      using some_local_max_is_global [OF c(2)] by blast
    have "q \<in> set (range2 0 csize)" using q(1,2) by (simp add: range2_def)
    then have "local_max amp q csize n \<in> (\<lambda>r. local_max amp r csize n) ` set (range2 0 csize)"
      by (rule imageI)
    then show "?G \<in> set ?L" unfolding q(3) by simp
  qed
  then show ?thesis using c ne by (simp add: Mv1c1_max_def allreduce_MAX_set)
qed

text \<open>
  Claim C9. The brightest transition \<^verbatim>\<open>Mv1c1_max\<close> (the local maxima followed by the
  all-reduce with \<^verbatim>\<open>MAX\<close>) is the maximum of 0 and the magnitudes over the whole index
  space \<open>0, ..., nener_in\<close>, on every rank and for every number of processes: it is the
  same however the indices are divided among the processes. Magnitudes are not
  negative, so with a non-empty index space it is the maximum of the magnitudes.
\<close>

theorem Mv1c1_max_partition_invariant:
  assumes "1 \<le> csize" "0 \<le> rank" "rank < csize"
    and "1 \<le> csize'" "0 \<le> rank'" "rank' < csize'"
  shows "Mv1c1_max amp rank csize nener_in = Max (insert 0 (amp ` {0..nener_in})) \<and>
         Mv1c1_max amp rank csize nener_in = Mv1c1_max amp rank' csize' nener_in \<and>
         ((\<forall>w. 0 \<le> amp w) \<and> 0 \<le> nener_in \<longrightarrow>
            Mv1c1_max amp rank csize nener_in = Max (amp ` {0..nener_in}))"
proof (intro conjI impI)
  show a: "Mv1c1_max amp rank csize nener_in = Max (insert 0 (amp ` {0..nener_in}))"
    using assms(1-3) by (rule Mv1c1_max_eq)
  show "Mv1c1_max amp rank csize nener_in = Mv1c1_max amp rank' csize' nener_in"
    using a Mv1c1_max_eq [OF assms(4-6)] by simp
  assume h: "(\<forall>w. 0 \<le> amp w) \<and> 0 \<le> nener_in"
  then have "amp 0 \<in> amp ` {0..nener_in}" by simp
  moreover have "0 \<le> amp 0" using h by simp
  ultimately have "Max (insert 0 (amp ` {0..nener_in})) = Max (amp ` {0..nener_in})"
    by (metis Max_ge Max_insert empty_iff finite_atLeastAtMost_int finite_imageI max.absorb2 order_trans)
  then show "Mv1c1_max amp rank csize nener_in = Max (amp ` {0..nener_in})" using a by simp
qed

text \<open>
  The theorem for the magnitudes \<open>(7 w) mod 11\<close> on the indices \<open>0, ..., 10\<close>: rank 1 of 3
  processes and rank 0 of 4 hold what a single process computes, the value 10, although
  the local maximum of rank 1 of 3 is 7.
\<close>

theorem Mv1c1_max_partition_invariant_witness:
  "Mv1c1_max (\<lambda>w. real_of_int ((w * 7) mod 11)) 1 3 10 =
     Mv1c1_max (\<lambda>w. real_of_int ((w * 7) mod 11)) 0 1 10 \<and>
   Mv1c1_max (\<lambda>w. real_of_int ((w * 7) mod 11)) 0 4 10 =
     Mv1c1_max (\<lambda>w. real_of_int ((w * 7) mod 11)) 0 1 10 \<and>
   Mv1c1_max (\<lambda>w. real_of_int ((w * 7) mod 11)) 0 1 10 = 10 \<and>
   local_max (\<lambda>w. real_of_int ((w * 7) mod 11)) 1 3 10 = 7"
proof (intro conjI)
  show "Mv1c1_max (\<lambda>w. real_of_int ((w * 7) mod 11)) 1 3 10 =
     Mv1c1_max (\<lambda>w. real_of_int ((w * 7) mod 11)) 0 1 10"
    by (rule conjunct1 [OF conjunct2 [OF Mv1c1_max_partition_invariant]]) simp_all
  show "Mv1c1_max (\<lambda>w. real_of_int ((w * 7) mod 11)) 0 4 10 =
     Mv1c1_max (\<lambda>w. real_of_int ((w * 7) mod 11)) 0 1 10"
    by (rule conjunct1 [OF conjunct2 [OF Mv1c1_max_partition_invariant]]) simp_all
  show "Mv1c1_max (\<lambda>w. real_of_int ((w * 7) mod 11)) 0 1 10 = 10"
    by code_simp
  show "local_max (\<lambda>w. real_of_int ((w * 7) mod 11)) 1 3 10 = 7"
    by code_simp
qed

end
